theory Spec2Isabelle
  imports Main "HOL-Library.Sublist"
begin

section \<open>The crate-list helper of the Cargo easyblock\<close>

text \<open>
  The development embeds \<^verbatim>\<open>generate_crate_list\<close> and the \<^verbatim>\<open>__main__\<close> block of
  \<^verbatim>\<open>easybuild/easyblocks/generic/cargo.py\<close>.

  The two calls of \<^verbatim>\<open>toml.load\<close> belong to an external library; the embedding starts
  from the two parsed documents. Following the data model, the values stored under
  \<^verbatim>\<open>name\<close>, \<^verbatim>\<open>version\<close> and \<^verbatim>\<open>source\<close> are strings, the descriptor maps top-level keys
  to tables and the lock file maps top-level keys to arrays of tables. A Python dict is
  an association list read with \<open>map_of\<close>; a subscript on a missing key raises
  \<^verbatim>\<open>KeyError\<close>, which is the one exception the function itself can raise on documents
  of this shape.
\<close>

subsection \<open>Data\<close>

datatype error = KeyError string

type_synonym crate = "string \<times> string"

type_synonym table = "(string \<times> string) list"

type_synonym descriptor = "(string \<times> table) list"

type_synonym lockfile = "(string \<times> table list) list"

text \<open>The Python subscript \<^verbatim>\<open>d[k]\<close> on a dict.\<close>

definition getitem :: "(string \<times> 'v) list \<Rightarrow> string \<Rightarrow> error + 'v" where
  "getitem d k = (case map_of d k of None \<Rightarrow> Inl (KeyError k) | Some v \<Rightarrow> Inr v)"

text \<open>The literal compared with \<^verbatim>\<open>dep['source']\<close> in the loop.\<close>

definition registry_source :: string where
  "registry_source = ''registry+https://github.com/rust-lang/crates.io-index''"

text \<open>
  The condition \<^verbatim>\<open>'source' in dep and dep['source'] == '...'\<close>: the subscript is only
  evaluated when the key is present.
\<close>

definition in_registry :: "table \<Rightarrow> bool" where
  "in_registry dep = (case map_of dep ''source'' of None \<Rightarrow> False | Some s \<Rightarrow> s = registry_source)"

text \<open>
  The objects the function holds while it runs: the two parsed documents and the three
  accumulators.
\<close>

record frame =
  cargo_toml :: descriptor
  cargo_lock :: lockfile
  app_in_cratesio :: bool
  crates :: "crate list"
  other_crates :: "crate list"

subsection \<open>The function\<close>

text \<open>One pass of the body of \<^verbatim>\<open>for dep in deps\<close>.\<close>

definition loop_body :: "string \<Rightarrow> table \<Rightarrow> frame \<Rightarrow> error + frame" where
  "loop_body app_name dep st =
     (case getitem dep ''name'' of
        Inl e \<Rightarrow> Inl e
      | Inr name \<Rightarrow>
          (case getitem dep ''version'' of
             Inl e \<Rightarrow> Inl e
           | Inr version \<Rightarrow>
               if in_registry dep then
                 (if name = app_name then Inr (st\<lparr>app_in_cratesio := True\<rparr>)
                  else Inr (st\<lparr>crates := crates st @ [(name, version)]\<rparr>))
               else Inr (st\<lparr>other_crates := other_crates st @ [(name, version)]\<rparr>)))"

fun for_deps :: "string \<Rightarrow> table list \<Rightarrow> frame \<Rightarrow> error + frame" where
  "for_deps app_name [] st = Inr st"
| "for_deps app_name (dep # deps) st =
     (case loop_body app_name dep st of
        Inl e \<Rightarrow> Inl e
      | Inr st' \<Rightarrow> for_deps app_name deps st')"

text \<open>The two reads \<^verbatim>\<open>cargo_toml['package']['name']\<close> and \<^verbatim>\<open>cargo_lock['package']\<close>.\<close>

definition get_app_name :: "descriptor \<Rightarrow> error + string" where
  "get_app_name toml =
     (case getitem toml ''package'' of
        Inl e \<Rightarrow> Inl e
      | Inr package \<Rightarrow> getitem package ''name'')"

definition get_deps :: "lockfile \<Rightarrow> error + table list" where
  "get_deps lock = getitem lock ''package''"

text \<open>The function up to its \<^verbatim>\<open>return\<close>, giving the frame it ends in.\<close>

definition generate_crate_list_frame :: "descriptor \<Rightarrow> lockfile \<Rightarrow> error + frame" where
  "generate_crate_list_frame toml lock =
     (case get_app_name toml of
        Inl e \<Rightarrow> Inl e
      | Inr app_name \<Rightarrow>
          (case get_deps lock of
             Inl e \<Rightarrow> Inl e
           | Inr deps \<Rightarrow>
               for_deps app_name deps
                 \<lparr>cargo_toml = toml, cargo_lock = lock,
                  app_in_cratesio = False, crates = [], other_crates = []\<rparr>))"

definition generate_crate_list :: "descriptor \<Rightarrow> lockfile \<Rightarrow> error + (bool \<times> crate list \<times> crate list)" where
  "generate_crate_list toml lock =
     (case generate_crate_list_frame toml lock of
        Inl e \<Rightarrow> Inl e
      | Inr st \<Rightarrow> Inr (app_in_cratesio st, crates st, other_crates st))"

subsection \<open>The standalone entry point\<close>

text \<open>
  The block under \<^verbatim>\<open>if __name__ == '__main__'\<close>. Standard output is the list of the
  strings printed, one per call of \<^verbatim>\<open>print\<close>; the directory argument is replaced by
  the two documents loaded from it.
\<close>

definition crate_line :: "crate \<Rightarrow> string" where
  "crate_line c = ''    ('' @ [CHR 0x27] @ fst c @ [CHR 0x27] @ '', '' @ [CHR 0x27] @ snd c @ [CHR 0x27] @ ''),''"

definition placeholder_line :: string where
  "placeholder_line = ''    (name, version),''"

definition main :: "descriptor \<Rightarrow> lockfile \<Rightarrow> error + string list" where
  "main toml lock =
     (case generate_crate_list toml lock of
        Inl e \<Rightarrow> Inl e
      | Inr (in_cratesio, cs, _) \<Rightarrow>
          Inr (if in_cratesio \<or> cs \<noteq> [] then
                 [''crates = ['']
                 @ (if in_cratesio then [placeholder_line] else [])
                 @ map crate_line cs
                 @ ['']'']
               else []))"

subsection \<open>Vocabulary of the properties\<close>

text \<open>The pair an entry contributes, when it has both keys.\<close>

definition entry_crate :: "table \<Rightarrow> crate option" where
  "entry_crate dep =
     (case map_of dep ''name'' of
        None \<Rightarrow> None
      | Some name \<Rightarrow> (case map_of dep ''version'' of None \<Rightarrow> None | Some version \<Rightarrow> Some (name, version)))"

text \<open>The pairs of a list of entries, in the order of the entries.\<close>

definition crates_of :: "table list \<Rightarrow> crate list" where
  "crates_of deps = List.map_filter entry_crate deps"

text \<open>An entry of the registry that carries the package's own name.\<close>

definition self_entry :: "string \<Rightarrow> table \<Rightarrow> bool" where
  "self_entry app_name dep = (in_registry dep \<and> map_of dep ''name'' = Some app_name)"

text \<open>The number of values a result accounts for in the count partition.\<close>

definition accounted :: "bool \<times> crate list \<times> crate list \<Rightarrow> nat" where
  "accounted r = (case r of (s, reg, oth) \<Rightarrow> length reg + length oth + (if s then 1 else 0))"


subsection \<open>Sample documents\<close>

text \<open>
  A descriptor that names its package, a lock file that holds only the package array,
  and entries with and without a registry source.
\<close>

definition toml_of :: "string \<Rightarrow> descriptor" where
  "toml_of app_name = [(''package'', [(''name'', app_name)])]"

definition lock_of :: "table list \<Rightarrow> lockfile" where
  "lock_of deps = [(''package'', deps)]"

definition registry_entry :: "string \<Rightarrow> string \<Rightarrow> table" where
  "registry_entry name version =
     [(''name'', name), (''version'', version), (''source'', registry_source)]"

definition local_entry :: "string \<Rightarrow> string \<Rightarrow> table" where
  "local_entry name version = [(''name'', name), (''version'', version)]"

text \<open>The documents of the scenario: package \<^verbatim>\<open>foo\<close> with three locked entries.\<close>

definition foo_toml :: descriptor where
  "foo_toml = toml_of ''foo''"

definition foo_deps :: "table list" where
  "foo_deps = [registry_entry ''foo'' ''1.0'', registry_entry ''bar'' ''2.0'', local_entry ''baz'' ''0.1'']"

definition foo_lock :: lockfile where
  "foo_lock = lock_of foo_deps"

text \<open>A lock list that holds the package's own name twice, both from the registry.\<close>

definition foo_twice_deps :: "table list" where
  "foo_twice_deps = [registry_entry ''foo'' ''1.0'', registry_entry ''foo'' ''2.0'']"

text \<open>A lock list with repeated entries.\<close>

definition repeated_deps :: "table list" where
  "repeated_deps =
     [registry_entry ''foo'' ''1.0'', registry_entry ''bar'' ''2.0'', local_entry ''baz'' ''0.1'',
      registry_entry ''foo'' ''1.0'', registry_entry ''bar'' ''2.0'', local_entry ''baz'' ''0.1'']"

section \<open>The loop and the function, characterised\<close>

lemmas run_defs =
  generate_crate_list_def generate_crate_list_frame_def get_app_name_def get_deps_def
  getitem_def loop_body_def in_registry_def toml_of_def lock_of_def registry_entry_def
  local_entry_def

lemma get_app_name_toml_of: "get_app_name (toml_of app) = Inr app"
  by (simp add: get_app_name_def getitem_def toml_of_def)

lemma get_deps_lock_of: "get_deps (lock_of deps) = Inr deps"
  by (simp add: get_deps_def getitem_def lock_of_def)

lemma entry_crate_registry_entry: "entry_crate (registry_entry n v) = Some (n, v)"
  by (simp add: entry_crate_def registry_entry_def)


lemma in_registry_registry_entry: "in_registry (registry_entry n v)"
  by (simp add: in_registry_def registry_entry_def)

lemma in_registry_local_entry: "\<not> in_registry (local_entry n v)"
  by (simp add: in_registry_def local_entry_def)

lemma self_entry_registry_entry: "self_entry app (registry_entry n v) \<longleftrightarrow> n = app"
  by (simp add: self_entry_def in_registry_registry_entry) (simp add: registry_entry_def)

lemma self_entry_local_entry: "\<not> self_entry app (local_entry n v)"
  by (simp add: self_entry_def in_registry_local_entry)


lemma loop_body_Inr:
  "loop_body app dep st = Inr st' \<longleftrightarrow>
     (\<exists>n v. entry_crate dep = Some (n, v) \<and>
        st' = (if in_registry dep then
                 (if n = app then st\<lparr>app_in_cratesio := True\<rparr>
                  else st\<lparr>crates := crates st @ [(n, v)]\<rparr>)
               else st\<lparr>other_crates := other_crates st @ [(n, v)]\<rparr>))"
  by (auto simp: loop_body_def getitem_def entry_crate_def split: option.splits)

lemma loop_body_Inl:
  "loop_body app dep st = Inl e \<longleftrightarrow>
     (map_of dep ''name'' = None \<and> e = KeyError ''name'') \<or>
     (map_of dep ''name'' \<noteq> None \<and> map_of dep ''version'' = None \<and> e = KeyError ''version'')"
  by (auto simp: loop_body_def getitem_def split: option.splits)

lemma loop_body_fields:
  assumes "loop_body app d st = Inr st1"
  shows "entry_crate d \<noteq> None"
    and "cargo_toml st1 = cargo_toml st"
    and "cargo_lock st1 = cargo_lock st"
    and "app_in_cratesio st1 = (app_in_cratesio st \<or> self_entry app d)"
    and "crates st1 = crates st @ crates_of (filter (\<lambda>d. in_registry d \<and> \<not> self_entry app d) [d])"
    and "other_crates st1 = other_crates st @ crates_of (filter (\<lambda>d. \<not> in_registry d) [d])"
  using assms
  by (auto simp: loop_body_def getitem_def entry_crate_def self_entry_def crates_of_def
      List.map_filter_simps split: option.splits if_splits)

lemma crates_of_Nil: "crates_of [] = []"
  by (simp add: crates_of_def List.map_filter_simps)

lemma crates_of_single: "entry_crate d = Some c \<Longrightarrow> crates_of [d] = [c]"
  by (simp add: crates_of_def List.map_filter_simps)

lemma crates_of_Cons_filter:
  "crates_of (filter P (d # ds)) = crates_of (filter P [d]) @ crates_of (filter P ds)"
  by (simp add: crates_of_def List.map_filter_simps split: option.splits)

lemma crates_of_append: "crates_of (xs @ ys) = crates_of xs @ crates_of ys"
  by (induction xs) (auto simp: crates_of_def List.map_filter_simps split: option.splits)

lemma entry_crate_Some:
  "entry_crate d = Some (n, v) \<longleftrightarrow> map_of d ''name'' = Some n \<and> map_of d ''version'' = Some v"
  by (auto simp: entry_crate_def split: option.splits)

lemma in_registry_iff: "in_registry d \<longleftrightarrow> map_of d ''source'' = Some registry_source"
  by (auto simp: in_registry_def split: option.splits)

lemma for_deps_fields:
  assumes "for_deps app deps st = Inr st'"
  shows "(\<forall>d\<in>set deps. entry_crate d \<noteq> None) \<and>
     cargo_toml st' = cargo_toml st \<and> cargo_lock st' = cargo_lock st \<and>
     app_in_cratesio st' = (app_in_cratesio st \<or> (\<exists>d\<in>set deps. self_entry app d)) \<and>
     crates st' = crates st @ crates_of (filter (\<lambda>d. in_registry d \<and> \<not> self_entry app d) deps) \<and>
     other_crates st' = other_crates st @ crates_of (filter (\<lambda>d. \<not> in_registry d) deps)"
  using assms
proof (induction deps arbitrary: st)
  case Nil
  then show ?case by (simp add: crates_of_def List.map_filter_simps)
next
  case (Cons d ds)
  from Cons.prems obtain st1 where b: "loop_body app d st = Inr st1"
    and r: "for_deps app ds st1 = Inr st'"
    by (auto split: sum.splits)
  note f = loop_body_fields [OF b]
  note ih = Cons.IH [OF r]
  show ?case
    unfolding crates_of_Cons_filter [of _ d ds]
    using f ih by auto
qed

lemma for_deps_total:
  assumes "\<forall>d\<in>set deps. entry_crate d \<noteq> None"
  shows "\<exists>st'. for_deps app deps st = Inr st'"
  using assms
proof (induction deps arbitrary: st)
  case Nil
  show ?case by simp
next
  case (Cons d ds)
  from Cons.prems obtain st1 where "loop_body app d st = Inr st1"
    by (auto simp: loop_body_Inr)
  with Cons show ?case by simp
qed

lemma for_deps_fails:
  assumes "d \<in> set deps" and "entry_crate d = None"
  shows "for_deps app deps st = Inl (KeyError ''name'') \<or> for_deps app deps st = Inl (KeyError ''version'')"
  using assms
proof (induction deps arbitrary: st)
  case Nil
  then show ?case by simp
next
  case (Cons x xs)
  show ?case
  proof (cases "loop_body app x st")
    case (Inl e)
    hence "e = KeyError ''name'' \<or> e = KeyError ''version''"
      by (auto simp: loop_body_Inl)
    with Inl show ?thesis by auto
  next
    case (Inr st1)
    hence "entry_crate x \<noteq> None" by (auto simp: loop_body_Inr)
    with Cons.prems have "d \<in> set xs" by auto
    from Cons.IH [OF this Cons.prems(2), of st1] Inr show ?thesis by simp
  qed
qed

lemma crates_of_defined:
  assumes "\<forall>d\<in>set ds. entry_crate d \<noteq> None"
  shows "map Some (crates_of ds) = map entry_crate ds"
  using assms
  by (induction ds) (auto simp: crates_of_def List.map_filter_simps)

lemma length_crates_of:
  assumes "\<forall>d\<in>set ds. entry_crate d \<noteq> None"
  shows "length (crates_of ds) = length ds"
  using crates_of_defined [OF assms] by (metis length_map)

lemma count_list_crates_of:
  "count_list (crates_of ds) c = length (filter (\<lambda>d. entry_crate d = Some c) ds)"
  by (induction ds) (auto simp: crates_of_def List.map_filter_simps split: option.splits)


lemma get_app_name_Inr:
  "get_app_name toml = Inr app \<longleftrightarrow>
     (\<exists>pkg. map_of toml ''package'' = Some pkg \<and> map_of pkg ''name'' = Some app)"
  by (auto simp: get_app_name_def getitem_def split: option.splits)

lemma get_app_name_Inl:
  "get_app_name toml = Inl e \<longleftrightarrow>
     (map_of toml ''package'' = None \<and> e = KeyError ''package'') \<or>
     (\<exists>pkg. map_of toml ''package'' = Some pkg \<and> map_of pkg ''name'' = None \<and> e = KeyError ''name'')"
  by (auto simp: get_app_name_def getitem_def split: option.splits)

lemma generate_crate_list_Inr:
  assumes "get_app_name toml = Inr app" and "get_deps lock = Inr deps"
    and "generate_crate_list toml lock = Inr (s, reg, oth)"
  shows "\<forall>d\<in>set deps. entry_crate d \<noteq> None"
    and "s = (\<exists>d\<in>set deps. self_entry app d)"
    and "reg = crates_of (filter (\<lambda>d. in_registry d \<and> \<not> self_entry app d) deps)"
    and "oth = crates_of (filter (\<lambda>d. \<not> in_registry d) deps)"
proof -
  from assms obtain st where
    l: "for_deps app deps \<lparr>cargo_toml = toml, cargo_lock = lock,
          app_in_cratesio = False, crates = [], other_crates = []\<rparr> = Inr st"
    and r: "s = app_in_cratesio st" "reg = crates st" "oth = other_crates st"
    by (auto simp: generate_crate_list_def generate_crate_list_frame_def split: sum.splits)
  note f = for_deps_fields [OF l]
  show "\<forall>d\<in>set deps. entry_crate d \<noteq> None" using f by blast
  show "s = (\<exists>d\<in>set deps. self_entry app d)" using f r by simp
  show "reg = crates_of (filter (\<lambda>d. in_registry d \<and> \<not> self_entry app d) deps)"
    using f r by simp
  show "oth = crates_of (filter (\<lambda>d. \<not> in_registry d) deps)" using f r by simp
qed

lemma generate_crate_list_total:
  assumes "get_app_name toml = Inr app" and "get_deps lock = Inr deps"
    and "\<forall>d\<in>set deps. entry_crate d \<noteq> None"
  shows "\<exists>r. generate_crate_list toml lock = Inr r"
proof -
  from for_deps_total [OF assms(3)] obtain st where
    "for_deps app deps \<lparr>cargo_toml = toml, cargo_lock = lock,
          app_in_cratesio = False, crates = [], other_crates = []\<rparr> = Inr st"
    by blast
  with assms(1,2) show ?thesis
    by (simp add: generate_crate_list_def generate_crate_list_frame_def)
qed

lemma generate_crate_list_value:
  assumes "get_app_name toml = Inr app" and "get_deps lock = Inr deps"
    and "\<forall>d\<in>set deps. entry_crate d \<noteq> None"
  shows "generate_crate_list toml lock =
     Inr (\<exists>d\<in>set deps. self_entry app d,
          crates_of (filter (\<lambda>d. in_registry d \<and> \<not> self_entry app d) deps),
          crates_of (filter (\<lambda>d. \<not> in_registry d) deps))"
proof -
  from generate_crate_list_total [OF assms] obtain s reg oth
    where r: "generate_crate_list toml lock = Inr (s, reg, oth)"
    by (metis prod_cases3)
  from generate_crate_list_Inr(2-4) [OF assms(1,2) r] r show ?thesis by simp
qed

lemma generate_crate_list_snoc:
  assumes "get_app_name toml = Inr app" and "get_deps lock = Inr deps"
    and "get_deps lock' = Inr (deps @ [d])"
    and "generate_crate_list toml lock = Inr (s, reg, oth)"
    and "entry_crate d = Some (n, v)"
  shows "generate_crate_list toml lock' =
     Inr (s \<or> self_entry app d,
          reg @ (if in_registry d \<and> n \<noteq> app then [(n, v)] else []),
          oth @ (if in_registry d then [] else [(n, v)]))"
proof -
  note r = generate_crate_list_Inr [OF assms(1,2,4)]
  from r(1) assms(5) have all: "\<forall>e\<in>set (deps @ [d]). entry_crate e \<noteq> None" by simp
  have n: "self_entry app d \<longleftrightarrow> in_registry d \<and> n = app"
    using assms(5) by (auto simp: self_entry_def entry_crate_Some)
  show ?thesis
    unfolding generate_crate_list_value [OF assms(1,3) all]
    using r(2-4) n assms(5) by (auto simp: crates_of_append crates_of_single crates_of_Nil)
qed

lemma partition_lengths:
  "length (filter (\<lambda>d. in_registry d \<and> \<not> self_entry app d) deps)
     + length (filter (\<lambda>d. \<not> in_registry d) deps)
     + length (filter (self_entry app) deps) = length deps"
  by (induction deps) (auto simp: self_entry_def)

lemma crate_line_not_placeholder: "crate_line c \<noteq> placeholder_line"
  by (simp add: crate_line_def placeholder_line_def)

section \<open>Properties\<close>

subsection \<open>Counting the entries\<close>

text \<open>
  C1, as amended. For a descriptor that names its package and a lock list whose entries
  all have a name and a version, \<^verbatim>\<open>generate_crate_list\<close> returns a triple, and the
  length of registryCrates plus the length of otherCrates plus the number of lock
  entries that carry the package's own name and the registry source equals the number
  of lock entries. The count with one unit for selfInRegistry equals the number of lock
  entries exactly when at most one entry carries the package's name and the registry
  source.
\<close>

theorem count_partition_amended:
  assumes "get_app_name toml = Inr app" and "get_deps lock = Inr deps"
    and "\<forall>d\<in>set deps. entry_crate d \<noteq> None"
  shows "\<exists>s reg oth. generate_crate_list toml lock = Inr (s, reg, oth) \<and>
     length reg + length oth + length (filter (self_entry app) deps) = length deps \<and>
     (accounted (s, reg, oth) = length deps \<longleftrightarrow> length (filter (self_entry app) deps) \<le> 1)"
proof -
  let ?R = "filter (\<lambda>d. in_registry d \<and> \<not> self_entry app d) deps"
  let ?O = "filter (\<lambda>d. \<not> in_registry d) deps"
  let ?S = "filter (self_entry app) deps"
  have v: "generate_crate_list toml lock = Inr (\<exists>d\<in>set deps. self_entry app d, crates_of ?R, crates_of ?O)"
    by (rule generate_crate_list_value [OF assms])
  have lr: "length (crates_of ?R) = length ?R"
    by (rule length_crates_of) (use assms(3) in simp)
  have lo: "length (crates_of ?O) = length ?O"
    by (rule length_crates_of) (use assms(3) in simp)
  have p: "length ?R + length ?O + length ?S = length deps"
    by (rule partition_lengths)
  have s: "(\<exists>d\<in>set deps. self_entry app d) \<longleftrightarrow> 0 < length ?S"
    by (simp add: filter_empty_conv)
  have a: "accounted (\<exists>d\<in>set deps. self_entry app d, crates_of ?R, crates_of ?O) = length deps
      \<longleftrightarrow> length ?S \<le> 1"
  proof (cases "\<exists>d\<in>set deps. self_entry app d")
    case True
    with s have "0 < length ?S" by simp
    with p have "(length ?R + length ?O + 1 = length deps) = (length ?S \<le> 1)" by arith
    with True lr lo show ?thesis unfolding accounted_def by simp
  next
    case False
    with s have "length ?S = 0" by simp
    with False lr lo p show ?thesis unfolding accounted_def by simp
  qed
  show ?thesis using v lr lo p a by simp
qed

theorem count_partition_amended_witness:
  "get_app_name foo_toml = Inr ''foo'' \<and> get_deps (lock_of foo_twice_deps) = Inr foo_twice_deps
   \<and> map entry_crate foo_twice_deps = [Some (''foo'', ''1.0''), Some (''foo'', ''2.0'')]
   \<and> length (filter (self_entry ''foo'') foo_twice_deps) = 2
   \<and> (\<exists>s reg oth. generate_crate_list foo_toml (lock_of foo_twice_deps) = Inr (s, reg, oth)
        \<and> length reg + length oth + 2 = length foo_twice_deps
        \<and> accounted (s, reg, oth) \<noteq> length foo_twice_deps)"
proof -
  have a: "get_app_name foo_toml = Inr ''foo''"
    by (simp add: foo_toml_def get_app_name_toml_of)
  have b: "get_deps (lock_of foo_twice_deps) = Inr foo_twice_deps"
    by (rule get_deps_lock_of)
  have c: "\<forall>d\<in>set foo_twice_deps. entry_crate d \<noteq> None"
    by (simp add: foo_twice_deps_def entry_crate_registry_entry)
  have n: "length (filter (self_entry ''foo'') foo_twice_deps) = 2"
    by (simp add: foo_twice_deps_def self_entry_registry_entry)
  have m: "map entry_crate foo_twice_deps = [Some (''foo'', ''1.0''), Some (''foo'', ''2.0'')]"
    by (simp add: foo_twice_deps_def entry_crate_registry_entry)
  show ?thesis
    using a b m n count_partition_amended [OF a b c] by simp
qed

text \<open>
  The count partition as the claim states it fails on a lock list that holds the
  package's name twice with the registry source: both entries are left out and the flag
  counts once.
\<close>

theorem count_partition_counterexample:
  "generate_crate_list foo_toml (lock_of foo_twice_deps) = Inr (True, [], [])
   \<and> get_deps (lock_of foo_twice_deps) = Inr foo_twice_deps
   \<and> accounted (True, [], []) \<noteq> length foo_twice_deps"
  by (simp add: run_defs foo_toml_def foo_twice_deps_def accounted_def registry_source_def)

subsection \<open>The package's own entry\<close>

text \<open>
  C2. An entry of the lock list whose name is the package's name and whose source is the
  registry marker is in neither output list: no pair of registryCrates carries the
  package's name, and the two output lists are the ones the function returns on the
  lock list without that entry. Whenever such an entry exists, selfInRegistry is true.
\<close>

theorem self_entry_excluded:
  assumes "get_app_name toml = Inr app"
    and "get_deps lock = Inr (xs @ d # ys)"
    and "map_of d ''name'' = Some app"
    and "map_of d ''source'' = Some registry_source"
    and "generate_crate_list toml lock = Inr (s, reg, oth)"
    and "get_deps lock' = Inr (xs @ ys)"
  shows "s \<and> (\<forall>c\<in>set reg. fst c \<noteq> app) \<and>
     (\<exists>s'. generate_crate_list toml lock' = Inr (s', reg, oth))"
proof -
  note r = generate_crate_list_Inr [OF assms(1,2,5)]
  have se: "self_entry app d"
    using assms(3,4) by (simp add: self_entry_def in_registry_iff)
  hence ir: "in_registry d" by (simp add: self_entry_def)
  from r(2) se have s by simp
  have names: "\<forall>c\<in>set (crates_of (filter (\<lambda>e. in_registry e \<and> \<not> self_entry app e) zs)). fst c \<noteq> app" for zs
    by (induction zs)
      (auto simp: crates_of_def List.map_filter_simps self_entry_def entry_crate_def
        split: option.splits)
  from r(1) have all: "\<forall>e\<in>set (xs @ ys). entry_crate e \<noteq> None" by simp
  have "generate_crate_list toml lock' = Inr (\<exists>e\<in>set (xs @ ys). self_entry app e, reg, oth)"
    unfolding generate_crate_list_value [OF assms(1,6) all]
    using r(3,4) se ir by simp
  with \<open>s\<close> names r(3) show ?thesis by blast
qed

theorem self_entry_excluded_witness:
  "get_app_name foo_toml = Inr ''foo''
   \<and> get_deps foo_lock = Inr ([] @ registry_entry ''foo'' ''1.0'' # [registry_entry ''bar'' ''2.0'', local_entry ''baz'' ''0.1''])
   \<and> map_of (registry_entry ''foo'' ''1.0'') ''name'' = Some ''foo''
   \<and> map_of (registry_entry ''foo'' ''1.0'') ''source'' = Some registry_source
   \<and> generate_crate_list foo_toml foo_lock = Inr (True, [(''bar'', ''2.0'')], [(''baz'', ''0.1'')])
   \<and> (\<exists>s'. generate_crate_list foo_toml (lock_of [registry_entry ''bar'' ''2.0'', local_entry ''baz'' ''0.1''])
          = Inr (s', [(''bar'', ''2.0'')], [(''baz'', ''0.1'')]))"
proof -
  have a: "get_app_name foo_toml = Inr ''foo''"
    by (simp add: foo_toml_def get_app_name_toml_of)
  have b: "get_deps foo_lock = Inr ([] @ registry_entry ''foo'' ''1.0'' # [registry_entry ''bar'' ''2.0'', local_entry ''baz'' ''0.1''])"
    by (simp add: foo_lock_def foo_deps_def get_deps_lock_of)
  have c: "map_of (registry_entry ''foo'' ''1.0'') ''name'' = Some ''foo''"
    by (simp add: registry_entry_def)
  have d: "map_of (registry_entry ''foo'' ''1.0'') ''source'' = Some registry_source"
    by (simp add: registry_entry_def)
  have e: "generate_crate_list foo_toml foo_lock = Inr (True, [(''bar'', ''2.0'')], [(''baz'', ''0.1'')])"
    by (simp add: run_defs foo_toml_def foo_lock_def foo_deps_def registry_source_def)
  have f: "get_deps (lock_of [registry_entry ''bar'' ''2.0'', local_entry ''baz'' ''0.1''])
      = Inr ([] @ [registry_entry ''bar'' ''2.0'', local_entry ''baz'' ''0.1''])"
    by (simp add: get_deps_lock_of)
  show ?thesis
    using a b c d e self_entry_excluded [OF a b c d e f] by simp
qed

subsection \<open>Routing by source\<close>

text \<open>
  C3. For a lock entry whose name differs from the package's name, the pair of its name
  and version is appended to registryCrates if and only if the entry has a source equal
  to the registry marker; in every other case, with no source as with any other source,
  the pair is appended to otherCrates.
\<close>

theorem routed_by_source:
  assumes "get_app_name toml = Inr app" and "get_deps lock = Inr deps"
    and "get_deps lock' = Inr (deps @ [d])"
    and "generate_crate_list toml lock = Inr (s, reg, oth)"
    and "map_of d ''name'' = Some n" and "map_of d ''version'' = Some v"
    and "n \<noteq> app"
  shows "generate_crate_list toml lock' =
     (if map_of d ''source'' = Some registry_source
      then Inr (s, reg @ [(n, v)], oth)
      else Inr (s, reg, oth @ [(n, v)]))"
proof -
  from assms(5,6) have c: "entry_crate d = Some (n, v)" by (simp add: entry_crate_Some)
  from assms(5,7) have ns: "\<not> self_entry app d" by (simp add: self_entry_def)
  show ?thesis
    unfolding generate_crate_list_snoc [OF assms(1-4) c]
    using ns assms(7) by (simp add: in_registry_iff)
qed

theorem routed_by_source_witness:
  "get_app_name foo_toml = Inr ''foo''
   \<and> get_deps (lock_of [registry_entry ''foo'' ''1.0'']) = Inr [registry_entry ''foo'' ''1.0'']
   \<and> generate_crate_list foo_toml (lock_of [registry_entry ''foo'' ''1.0'']) = Inr (True, [], [])
   \<and> generate_crate_list foo_toml (lock_of [registry_entry ''foo'' ''1.0'', registry_entry ''bar'' ''2.0''])
        = Inr (True, [(''bar'', ''2.0'')], [])
   \<and> generate_crate_list foo_toml (lock_of [registry_entry ''foo'' ''1.0'', local_entry ''baz'' ''0.1''])
        = Inr (True, [], [(''baz'', ''0.1'')])"
proof -
  have a: "get_app_name foo_toml = Inr ''foo''"
    by (simp add: foo_toml_def get_app_name_toml_of)
  have b: "get_deps (lock_of [registry_entry ''foo'' ''1.0'']) = Inr [registry_entry ''foo'' ''1.0'']"
    by (rule get_deps_lock_of)
  have c: "generate_crate_list foo_toml (lock_of [registry_entry ''foo'' ''1.0'']) = Inr (True, [], [])"
    by (simp add: run_defs foo_toml_def)
  have d1: "get_deps (lock_of [registry_entry ''foo'' ''1.0'', registry_entry ''bar'' ''2.0''])
      = Inr ([registry_entry ''foo'' ''1.0''] @ [registry_entry ''bar'' ''2.0''])"
    by (simp add: get_deps_lock_of)
  have d2: "get_deps (lock_of [registry_entry ''foo'' ''1.0'', local_entry ''baz'' ''0.1''])
      = Inr ([registry_entry ''foo'' ''1.0''] @ [local_entry ''baz'' ''0.1''])"
    by (simp add: get_deps_lock_of)
  have n1: "map_of (registry_entry ''bar'' ''2.0'') ''name'' = Some ''bar''"
    and v1: "map_of (registry_entry ''bar'' ''2.0'') ''version'' = Some ''2.0''"
    and s1: "map_of (registry_entry ''bar'' ''2.0'') ''source'' = Some registry_source"
    by (simp_all add: registry_entry_def)
  have n2: "map_of (local_entry ''baz'' ''0.1'') ''name'' = Some ''baz''"
    and v2: "map_of (local_entry ''baz'' ''0.1'') ''version'' = Some ''0.1''"
    and s2: "map_of (local_entry ''baz'' ''0.1'') ''source'' \<noteq> Some registry_source"
    by (simp_all add: local_entry_def)
  have x: "''bar'' \<noteq> ''foo''" "''baz'' \<noteq> ''foo''" by simp_all
  show ?thesis
    using a b c s1 s2
      routed_by_source [OF a b d1 c n1 v1 x(1)]
      routed_by_source [OF a b d2 c n2 v2 x(2)]
    by simp
qed

text \<open>
  C9. A lock entry that carries the package's own name but has no source, or a source
  other than the registry marker, is not left out: its pair is appended to otherCrates,
  and it leaves selfInRegistry as it was.
\<close>

theorem self_named_other_source:
  assumes "get_app_name toml = Inr app" and "get_deps lock = Inr deps"
    and "get_deps lock' = Inr (deps @ [d])"
    and "generate_crate_list toml lock = Inr (s, reg, oth)"
    and "map_of d ''name'' = Some app" and "map_of d ''version'' = Some v"
    and "map_of d ''source'' \<noteq> Some registry_source"
  shows "generate_crate_list toml lock' = Inr (s, reg, oth @ [(app, v)])"
proof -
  from assms(5,6) have c: "entry_crate d = Some (app, v)" by (simp add: entry_crate_Some)
  from assms(7) have nr: "\<not> in_registry d" by (simp add: in_registry_iff)
  hence ns: "\<not> self_entry app d" by (simp add: self_entry_def)
  show ?thesis
    unfolding generate_crate_list_snoc [OF assms(1-4) c]
    using ns nr by simp
qed

theorem self_named_other_source_witness:
  "get_app_name foo_toml = Inr ''foo''
   \<and> get_deps (lock_of []) = Inr []
   \<and> generate_crate_list foo_toml (lock_of []) = Inr (False, [], [])
   \<and> map_of (local_entry ''foo'' ''1.0'') ''source'' \<noteq> Some registry_source
   \<and> generate_crate_list foo_toml (lock_of [local_entry ''foo'' ''1.0''])
        = Inr (False, [], [(''foo'', ''1.0'')])"
proof -
  have a: "get_app_name foo_toml = Inr ''foo''"
    by (simp add: foo_toml_def get_app_name_toml_of)
  have b: "get_deps (lock_of []) = Inr []"
    by (rule get_deps_lock_of)
  have c: "generate_crate_list foo_toml (lock_of []) = Inr (False, [], [])"
    by (simp add: run_defs foo_toml_def)
  have d: "get_deps (lock_of [local_entry ''foo'' ''1.0'']) = Inr ([] @ [local_entry ''foo'' ''1.0''])"
    by (simp add: get_deps_lock_of)
  have n: "map_of (local_entry ''foo'' ''1.0'') ''name'' = Some ''foo''"
    and v: "map_of (local_entry ''foo'' ''1.0'') ''version'' = Some ''1.0''"
    and s: "map_of (local_entry ''foo'' ''1.0'') ''source'' \<noteq> Some registry_source"
    by (simp_all add: local_entry_def)
  show ?thesis
    using a b c s self_named_other_source [OF a b d c n v s] by simp
qed

subsection \<open>Order and multiplicity\<close>



text \<open>
  C10. Nothing is deduplicated: a pair occurs in registryCrates as many times as the lock
  list holds registry entries with that pair, none when the pair carries the package's
  name, and in otherCrates as many times as the lock list holds entries with that pair
  and no registry source. However many registry entries carry the package's name, all
  are left out, and selfInRegistry only records that there is one.
\<close>

theorem no_deduplication:
  assumes "get_app_name toml = Inr app" and "get_deps lock = Inr deps"
    and "generate_crate_list toml lock = Inr (s, reg, oth)"
  shows "count_list reg c =
       length (filter (\<lambda>d. entry_crate d = Some c \<and> in_registry d \<and> fst c \<noteq> app) deps)
     \<and> count_list oth c =
       length (filter (\<lambda>d. entry_crate d = Some c \<and> \<not> in_registry d) deps)
     \<and> (s \<longleftrightarrow> (\<exists>d\<in>set deps. self_entry app d))"
proof -
  note r = generate_crate_list_Inr [OF assms]
  have e: "(entry_crate d = Some c \<and> in_registry d \<and> \<not> self_entry app d)
      \<longleftrightarrow> (entry_crate d = Some c \<and> in_registry d \<and> fst c \<noteq> app)" for d
    by (cases c) (auto simp: self_entry_def entry_crate_Some)
  have "count_list reg c =
       length (filter (\<lambda>d. entry_crate d = Some c \<and> in_registry d \<and> \<not> self_entry app d) deps)"
    unfolding r(3) count_list_crates_of by (simp add: conj_commute conj_left_commute)
  hence 1: "count_list reg c =
       length (filter (\<lambda>d. entry_crate d = Some c \<and> in_registry d \<and> fst c \<noteq> app) deps)"
    unfolding e .
  have 2: "count_list oth c =
       length (filter (\<lambda>d. entry_crate d = Some c \<and> \<not> in_registry d) deps)"
    unfolding r(4) count_list_crates_of by (simp add: conj_commute)
  from 1 2 r(2) show ?thesis by simp
qed

theorem no_deduplication_witness:
  "get_app_name foo_toml = Inr ''foo'' \<and> get_deps (lock_of repeated_deps) = Inr repeated_deps
   \<and> generate_crate_list foo_toml (lock_of repeated_deps)
        = Inr (True, [(''bar'', ''2.0''), (''bar'', ''2.0'')], [(''baz'', ''0.1''), (''baz'', ''0.1'')])
   \<and> length (filter (\<lambda>d. entry_crate d = Some (''bar'', ''2.0'') \<and> in_registry d
        \<and> fst (''bar'', ''2.0'') \<noteq> ''foo'') repeated_deps) = 2
   \<and> length (filter (\<lambda>d. entry_crate d = Some (''foo'', ''1.0'') \<and> in_registry d
        \<and> fst (''foo'', ''1.0'') \<noteq> ''foo'') repeated_deps) = 0
   \<and> (\<exists>d\<in>set repeated_deps. self_entry ''foo'' d)"
proof -
  have a: "get_app_name foo_toml = Inr ''foo''"
    by (simp add: foo_toml_def get_app_name_toml_of)
  have b: "get_deps (lock_of repeated_deps) = Inr repeated_deps"
    by (rule get_deps_lock_of)
  have c: "generate_crate_list foo_toml (lock_of repeated_deps)
        = Inr (True, [(''bar'', ''2.0''), (''bar'', ''2.0'')], [(''baz'', ''0.1''), (''baz'', ''0.1'')])"
    by (simp add: run_defs foo_toml_def repeated_deps_def registry_source_def)
  show ?thesis
    using a b c
      no_deduplication [OF a b c, of "(''bar'', ''2.0'')"]
      no_deduplication [OF a b c, of "(''foo'', ''1.0'')"]
    by simp
qed

subsection \<open>The scenario\<close>

text \<open>
  C5. For the descriptor naming the package foo and the lock list with foo 1.0 and
  bar 2.0 from the registry and baz 0.1 without a source, \<^verbatim>\<open>generate_crate_list\<close>
  returns (True, [(bar, 2.0)], [(baz, 0.1)]).
\<close>

theorem scenario_foo_bar_baz:
  "generate_crate_list
     [(''package'', [(''name'', ''foo'')])]
     [(''package'',
        [[(''name'', ''foo''), (''version'', ''1.0''),
          (''source'', ''registry+https://github.com/rust-lang/crates.io-index'')],
         [(''name'', ''bar''), (''version'', ''2.0''),
          (''source'', ''registry+https://github.com/rust-lang/crates.io-index'')],
         [(''name'', ''baz''), (''version'', ''0.1'')]])]
   = Inr (True, [(''bar'', ''2.0'')], [(''baz'', ''0.1'')])"
  by (simp add: generate_crate_list_def generate_crate_list_frame_def get_app_name_def
      get_deps_def getitem_def loop_body_def in_registry_def registry_source_def)

subsection \<open>The standalone entry point\<close>

text \<open>
  C6. Run as a program, the module prints something if and only if selfInRegistry is true
  or registryCrates is not empty. What it prints is then the opening line, the
  placeholder line exactly when selfInRegistry is true, one line for each pair of
  registryCrates in order, and the closing line. The output is the same whatever
  otherCrates holds.
\<close>

theorem standalone_rendering:
  assumes "generate_crate_list toml lock = Inr (s, reg, oth)"
  shows "\<exists>out. main toml lock = Inr out
     \<and> (out \<noteq> [] \<longleftrightarrow> s \<or> reg \<noteq> [])
     \<and> (out \<noteq> [] \<longrightarrow>
          out = [''crates = [''] @ (if s then [placeholder_line] else []) @ map crate_line reg @ ['']''])
     \<and> (placeholder_line \<in> set out \<longleftrightarrow> s)
     \<and> (\<forall>toml' lock' oth'. generate_crate_list toml' lock' = Inr (s, reg, oth')
            \<longrightarrow> main toml' lock' = Inr out)"
proof -
  have p: "placeholder_line \<notin> set (map crate_line reg)"
    using crate_line_not_placeholder by (metis (no_types) imageE set_map)
  have q: "placeholder_line \<noteq> ''crates = [''" "placeholder_line \<noteq> '']''"
    by (simp_all add: placeholder_line_def)
  from assms p q show ?thesis
    by (auto simp: main_def)
qed

theorem standalone_rendering_witness:
  "generate_crate_list foo_toml foo_lock = Inr (True, [(''bar'', ''2.0'')], [(''baz'', ''0.1'')])
   \<and> main foo_toml foo_lock =
       Inr [''crates = ['', ''    (name, version),'', crate_line (''bar'', ''2.0''), '']'']
   \<and> generate_crate_list foo_toml (lock_of [registry_entry ''foo'' ''1.0'', registry_entry ''bar'' ''2.0''])
       = Inr (True, [(''bar'', ''2.0'')], [])
   \<and> main foo_toml (lock_of [registry_entry ''foo'' ''1.0'', registry_entry ''bar'' ''2.0''])
       = main foo_toml foo_lock"
proof -
  have c: "generate_crate_list foo_toml foo_lock = Inr (True, [(''bar'', ''2.0'')], [(''baz'', ''0.1'')])"
    by (simp add: run_defs foo_toml_def foo_lock_def foo_deps_def registry_source_def)
  have d: "generate_crate_list foo_toml (lock_of [registry_entry ''foo'' ''1.0'', registry_entry ''bar'' ''2.0''])
       = Inr (True, [(''bar'', ''2.0'')], [])"
    by (simp add: run_defs foo_toml_def registry_source_def)
  from standalone_rendering [OF c] obtain out where
    m: "main foo_toml foo_lock = Inr out"
    and n: "out \<noteq> [] \<longleftrightarrow> True \<or> [(''bar'', ''2.0'')] \<noteq> ([] :: crate list)"
    and o: "out \<noteq> [] \<longrightarrow>
          out = [''crates = [''] @ (if True then [placeholder_line] else [])
            @ map crate_line [(''bar'', ''2.0'')] @ ['']'']"
    and i: "\<forall>toml' lock' oth'. generate_crate_list toml' lock' = Inr (True, [(''bar'', ''2.0'')], oth')
            \<longrightarrow> main toml' lock' = Inr out"
    by blast
  from n o have "out = [''crates = ['', ''    (name, version),'', crate_line (''bar'', ''2.0''), '']'']"
    by (simp add: placeholder_line_def)
  moreover from i d
  have "main foo_toml (lock_of [registry_entry ''foo'' ''1.0'', registry_entry ''bar'' ''2.0'']) = Inr out"
    by blast
  ultimately show ?thesis using c d m by simp
qed

subsection \<open>Errors\<close>

text \<open>
  C7. When the descriptor has no package table or its package table has no name, or when
  some entry of the lock list has no name or no version, \<^verbatim>\<open>generate_crate_list\<close>
  fails with the error of a missing key, and returns no triple. The missing-key error
  of the function is Python's KeyError.
\<close>

theorem missing_key_fails:
  assumes "map_of toml ''package'' = None
     \<or> (\<exists>pkg. map_of toml ''package'' = Some pkg \<and> map_of pkg ''name'' = None)
     \<or> (\<exists>deps d. map_of lock ''package'' = Some deps \<and> d \<in> set deps
            \<and> (map_of d ''name'' = None \<or> map_of d ''version'' = None))"
  shows "(\<exists>k\<in>{''package'', ''name'', ''version''}. generate_crate_list toml lock = Inl (KeyError k))
     \<and> (\<forall>r. generate_crate_list toml lock \<noteq> Inr r)"
proof -
  have "\<exists>k\<in>{''package'', ''name'', ''version''}. generate_crate_list toml lock = Inl (KeyError k)"
  proof (cases "get_app_name toml")
    case (Inl e)
    hence "generate_crate_list toml lock = Inl e"
      by (simp add: generate_crate_list_def generate_crate_list_frame_def)
    moreover from Inl have "e = KeyError ''package'' \<or> e = KeyError ''name''"
      by (auto simp: get_app_name_Inl)
    ultimately show ?thesis by auto
  next
    case (Inr app)
    with assms obtain deps d where l: "map_of lock ''package'' = Some deps"
      and d: "d \<in> set deps" and m: "map_of d ''name'' = None \<or> map_of d ''version'' = None"
      by (auto simp: get_app_name_Inr)
    from l have g: "get_deps lock = Inr deps" by (simp add: get_deps_def getitem_def)
    from m have "entry_crate d = None" by (auto simp: entry_crate_def split: option.splits)
    from for_deps_fails [OF d this] obtain k where k: "k = ''name'' \<or> k = ''version''"
      and f: "for_deps app deps \<lparr>cargo_toml = toml, cargo_lock = lock,
          app_in_cratesio = False, crates = [], other_crates = []\<rparr> = Inl (KeyError k)"
      by blast
    from f Inr g have "generate_crate_list toml lock = Inl (KeyError k)"
      by (simp add: generate_crate_list_def generate_crate_list_frame_def)
    with k show ?thesis by auto
  qed
  thus ?thesis by auto
qed

theorem missing_key_fails_witness:
  "(map_of foo_toml ''package'' = None
     \<or> (\<exists>pkg. map_of foo_toml ''package'' = Some pkg \<and> map_of pkg ''name'' = None)
     \<or> (\<exists>deps d. map_of (lock_of [registry_entry ''bar'' ''2.0'', [(''name'', ''baz'')]]) ''package'' = Some deps
            \<and> d \<in> set deps \<and> (map_of d ''name'' = None \<or> map_of d ''version'' = None)))
   \<and> generate_crate_list foo_toml (lock_of [registry_entry ''bar'' ''2.0'', [(''name'', ''baz'')]])
       = Inl (KeyError ''version'')
   \<and> (\<exists>k\<in>{''package'', ''name'', ''version''}.
         generate_crate_list foo_toml (lock_of [registry_entry ''bar'' ''2.0'', [(''name'', ''baz'')]])
           = Inl (KeyError k))
   \<and> (\<forall>r. generate_crate_list foo_toml (lock_of [registry_entry ''bar'' ''2.0'', [(''name'', ''baz'')]])
           \<noteq> Inr r)"
proof -
  have h: "map_of foo_toml ''package'' = None
     \<or> (\<exists>pkg. map_of foo_toml ''package'' = Some pkg \<and> map_of pkg ''name'' = None)
     \<or> (\<exists>deps d. map_of (lock_of [registry_entry ''bar'' ''2.0'', [(''name'', ''baz'')]]) ''package'' = Some deps
            \<and> d \<in> set deps \<and> (map_of d ''name'' = None \<or> map_of d ''version'' = None))"
    by (intro disjI2 exI [of _ "[registry_entry ''bar'' ''2.0'', [(''name'', ''baz'')]]"]
        exI [of _ "[(''name'', ''baz'')]"]) (simp add: lock_of_def)
  have e: "generate_crate_list foo_toml (lock_of [registry_entry ''bar'' ''2.0'', [(''name'', ''baz'')]])
       = Inl (KeyError ''version'')"
    by (simp add: run_defs foo_toml_def registry_source_def)
  from missing_key_fails [OF h] h e show ?thesis by blast
qed

subsection \<open>Inputs left as they were\<close>



end
